theory Spec2Isabelle
  imports Main
begin

section \<open>Tic Tac Toe: the game state of \<open>App.js\<close>\<close>

text \<open>
  The component \<open>App\<close> keeps six pieces of React state: \<open>theme\<close>, \<open>board\<close>,
  \<open>xIsNext\<close>, \<open>scores\<close>, \<open>winnerInfo\<close> and \<open>isDraw\<close>. Every event handler reads
  the state of the current render and replaces some of it; the handlers run one at a
  time, each on the state the previous one left. A handler is therefore a function from
  the state to the next state.
\<close>

subsection \<open>Values and arrays\<close>

text \<open>The two marks are the strings \<open>'X'\<close> and \<open>'O'\<close>.\<close>

datatype mark = MarkX | MarkO

text \<open>
  A board element is \<open>null\<close> or a mark. Reading a property that an array does not have
  gives \<open>undefined\<close>: a read is a \<open>cell option\<close>, with \<open>None\<close> for \<open>undefined\<close>.
\<close>

datatype cell = Null | Filled mark

text \<open>
  A JavaScript array is an object with a \<open>length\<close> and properties under integer keys.
  Keys from \<open>0\<close> up to \<open>2^32 - 2\<close> are array indices; a key below \<open>length\<close> with no
  property is a hole. Any other integer key (a negative one, for instance) is an
  ordinary property, which \<open>length\<close>, \<open>slice\<close> and \<open>every\<close> do not see.
\<close>

record js_array =
  len :: nat
  slots :: "int \<rightharpoonup> cell"

definition is_array_index :: "int \<Rightarrow> bool" where
  "is_array_index i = (0 \<le> i \<and> i < 2 ^ 32 - 1)"

text \<open>\<open>Array(n).fill(null)\<close>\<close>

definition array_fill_null :: "nat \<Rightarrow> js_array" where
  "array_fill_null n =
     \<lparr>len = n, slots = (\<lambda>i. if 0 \<le> i \<and> i < int n then Some Null else None)\<rparr>"

text \<open>\<open>arr[i]\<close>\<close>

definition array_get :: "js_array \<Rightarrow> int \<Rightarrow> cell option" where
  "array_get arr i = slots arr i"

text \<open>
  \<open>arr.slice()\<close>: a new array of the same length holding the elements at the indices
  below \<open>length\<close>; holes stay holes, and properties that are not elements are not copied.
\<close>

definition array_slice :: "js_array \<Rightarrow> js_array" where
  "array_slice arr =
     \<lparr>len = len arr,
      slots = (\<lambda>i. if 0 \<le> i \<and> i < int (len arr) then slots arr i else None)\<rparr>"

text \<open>
  \<open>arr[i] = v\<close>: writing at an array index at or beyond \<open>length\<close> extends the array to
  \<open>i + 1\<close>; writing under any other key leaves \<open>length\<close> alone.
\<close>

definition array_set :: "js_array \<Rightarrow> int \<Rightarrow> cell \<Rightarrow> js_array" where
  "array_set arr i v =
     (if is_array_index i
      then \<lparr>len = max (len arr) (nat i + 1), slots = (slots arr)(i \<mapsto> v)\<rparr>
      else \<lparr>len = len arr, slots = (slots arr)(i \<mapsto> v)\<rparr>)"

text \<open>\<open>Boolean(v)\<close>: of the values a board can hold, only the marks are truthy.\<close>

fun Boolean :: "cell option \<Rightarrow> bool" where
  "Boolean (Some (Filled m)) = True"
| "Boolean (Some Null) = False"
| "Boolean None = False"

text \<open>\<open>arr.every(Boolean)\<close>: the callback is called on the elements that exist; holes are skipped.\<close>

definition every_Boolean :: "js_array \<Rightarrow> bool" where
  "every_Boolean arr =
     list_all (\<lambda>k. slots arr (int k) = None \<or> Boolean (slots arr (int k))) [0..<len arr]"

subsection \<open>The state\<close>

record winner_info =
  winner :: "mark option"
  line :: "int list"

record score_board =
  score_X :: nat
  score_O :: nat
  draws :: nat

text \<open>
  The score counters are JavaScript numbers that start at \<open>0\<close> and grow by \<open>1\<close>; they are
  modelled as natural numbers (number arithmetic is exact on integers below \<open>2^53\<close>).
\<close>

record app_state =
  theme :: string
  board :: js_array
  xIsNext :: bool
  scores :: score_board
  winnerInfo :: winner_info
  isDraw :: bool

text \<open>The initial values given to \<open>useState\<close>.\<close>

definition initial_state :: app_state where
  "initial_state =
     \<lparr>theme = ''light'',
      board = array_fill_null 9,
      xIsNext = True,
      scores = \<lparr>score_X = 0, score_O = 0, draws = 0\<rparr>,
      winnerInfo = \<lparr>winner = None, line = []\<rparr>,
      isDraw = False\<rparr>"

subsection \<open>\<open>calculateWinner\<close>\<close>

definition lines :: "(int \<times> int \<times> int) list" where
  "lines = [(0, 1, 2), (3, 4, 5), (6, 7, 8),
            (0, 3, 6), (1, 4, 7), (2, 5, 8),
            (0, 4, 8), (2, 4, 6)]"

text \<open>
  The \<open>for\<close> loop over the table: the first triple \<open>[a, b, c]\<close> with \<open>squares[a]\<close> truthy,
  \<open>squares[a] === squares[b]\<close> and \<open>squares[b] === squares[c]\<close> is returned.
\<close>

fun scan_lines :: "js_array \<Rightarrow> (int \<times> int \<times> int) list \<Rightarrow> winner_info" where
  "scan_lines squares [] = \<lparr>winner = None, line = []\<rparr>"
| "scan_lines squares ((a, b, c) # rest) =
     (case array_get squares a of
        Some (Filled m) \<Rightarrow>
          (if array_get squares a = array_get squares b
              \<and> array_get squares b = array_get squares c
           then \<lparr>winner = Some m, line = [a, b, c]\<rparr>
           else scan_lines squares rest)
      | _ \<Rightarrow> scan_lines squares rest)"

definition calculateWinner :: "js_array \<Rightarrow> winner_info" where
  "calculateWinner squares = scan_lines squares lines"

subsection \<open>The handlers\<close>

text \<open>\<open>{...prev, [w]: prev[w] + 1}\<close>\<close>

fun bump_winner :: "mark \<Rightarrow> score_board \<Rightarrow> score_board" where
  "bump_winner MarkX prev = prev\<lparr>score_X := score_X prev + 1\<rparr>"
| "bump_winner MarkO prev = prev\<lparr>score_O := score_O prev + 1\<rparr>"

text \<open>\<open>const gameOver = Boolean(winnerInfo.winner) || isDraw\<close>\<close>

definition gameOver :: "app_state \<Rightarrow> bool" where
  "gameOver s = (winner (winnerInfo s) \<noteq> None \<or> isDraw s)"

text \<open>What the page shows: \<open>winnerInfo.winner ? 'win' : isDraw ? 'draw' : 'next'\<close>.\<close>

datatype outcome = IN_PROGRESS | WIN mark "int list" | DRAW

definition outcome :: "app_state \<Rightarrow> outcome" where
  "outcome s =
     (case winner (winnerInfo s) of
        Some w \<Rightarrow> WIN w (line (winnerInfo s))
      | None \<Rightarrow> if isDraw s then DRAW else IN_PROGRESS)"

text \<open>The mark that plays next: \<open>xIsNext ? 'X' : 'O'\<close>.\<close>

definition turn :: "app_state \<Rightarrow> mark" where
  "turn s = (if xIsNext s then MarkX else MarkO)"

text \<open>
  The click handler. \<open>idx\<close> is the position the page passes, an integer. The guard
  returns before any setter is called; past it, the copy of the board gets the mark of
  the current turn under the key \<open>idx\<close>, and the setters store the new board, the
  flipped turn, the result of \<open>calculateWinner\<close>, the draw flag and the bumped score.
\<close>

definition handleSquareClick :: "int \<Rightarrow> app_state \<Rightarrow> app_state" where
  "handleSquareClick idx s =
     (if winner (winnerInfo s) \<noteq> None \<or> isDraw s \<or> Boolean (array_get (board s) idx)
      then s
      else
        let nextBoard = array_set (array_slice (board s)) idx
                          (Filled (if xIsNext s then MarkX else MarkO));
            res = calculateWinner nextBoard;
            filled = every_Boolean nextBoard;
            draw = (winner res = None \<and> filled)
        in s\<lparr>board := nextBoard,
             xIsNext := \<not> xIsNext s,
             winnerInfo := res,
             isDraw := draw,
             scores :=
               (case winner res of
                  Some w \<Rightarrow> bump_winner w (scores s)
                | None \<Rightarrow>
                    if draw then (scores s)\<lparr>draws := draws (scores s) + 1\<rparr>
                    else scores s)\<rparr>)"

text \<open>\<open>newGame\<close> clears the board and keeps the score; \<open>resetScores\<close> calls it and zeroes the score.\<close>

definition newGame :: "app_state \<Rightarrow> app_state" where
  "newGame s =
     s\<lparr>board := array_fill_null 9,
       xIsNext := True,
       winnerInfo := \<lparr>winner = None, line = []\<rparr>,
       isDraw := False\<rparr>"

definition resetScores :: "app_state \<Rightarrow> app_state" where
  "resetScores s = (newGame s)\<lparr>scores := \<lparr>score_X = 0, score_O = 0, draws = 0\<rparr>\<rparr>"

definition toggleTheme :: "app_state \<Rightarrow> app_state" where
  "toggleTheme s = s\<lparr>theme := (if theme s = ''light'' then ''dark'' else ''light'')\<rparr>"

text \<open>
  The specification calls the click handler \<open>applyMove\<close> and asks whether it signals an
  error. The handler has no \<open>throw\<close>, and nothing it does (reading and writing array
  properties, \<open>slice\<close>, \<open>every\<close>, the state setters) can raise: it always completes.
\<close>

datatype error = InvalidArgument

definition applyMove :: "int \<Rightarrow> app_state \<Rightarrow> error + app_state" where
  "applyMove idx s = Inr (handleSquareClick idx s)"

subsection \<open>Sequences of events\<close>

text \<open>The events the page can send, and a run of them from a given state.\<close>

datatype event = Click int | NewGame | ResetScores | ToggleTheme

fun dispatch :: "event \<Rightarrow> app_state \<Rightarrow> app_state" where
  "dispatch (Click idx) s = handleSquareClick idx s"
| "dispatch NewGame s = newGame s"
| "dispatch ResetScores s = resetScores s"
| "dispatch ToggleTheme s = toggleTheme s"

fun run :: "app_state \<Rightarrow> event list \<Rightarrow> app_state" where
  "run s [] = s"
| "run s (e # es) = run (dispatch e s) es"

text \<open>
  A move is accepted when the round is in progress, the index is one of the nine cells
  and the cell is empty.
\<close>

definition accepted :: "app_state \<Rightarrow> int \<Rightarrow> bool" where
  "accepted s idx =
     (\<not> gameOver s \<and> 0 \<le> idx \<and> idx \<le> 8 \<and> array_get (board s) idx = Some Null)"

fun all_accepted :: "app_state \<Rightarrow> int list \<Rightarrow> bool" where
  "all_accepted s [] = True"
| "all_accepted s (i # is) = (accepted s i \<and> all_accepted (handleSquareClick i s) is)"

text \<open>A sequence of clicks, by cell index.\<close>

fun play :: "app_state \<Rightarrow> int list \<Rightarrow> app_state" where
  "play s [] = s"
| "play s (i # is) = play (handleSquareClick i s) is"

subsection \<open>Notions used in the statements\<close>

text \<open>A triple of the table matches when its three cells are equal and hold a mark.\<close>

definition triple_matches :: "js_array \<Rightarrow> int \<times> int \<times> int \<Rightarrow> bool" where
  "triple_matches squares t =
     (case t of (a, b, c) \<Rightarrow>
        Boolean (array_get squares a)
        \<and> array_get squares a = array_get squares b
        \<and> array_get squares b = array_get squares c)"

text \<open>All nine cells hold a mark.\<close>

definition cells_filled :: "js_array \<Rightarrow> bool" where
  "cells_filled squares = list_all (\<lambda>k. Boolean (array_get squares (int k))) [0..<9]"

text \<open>The number of cells among the nine that hold a given mark.\<close>

definition count_mark :: "mark \<Rightarrow> js_array \<Rightarrow> nat" where
  "count_mark m squares =
     length (filter (\<lambda>k. array_get squares (int k) = Some (Filled m)) [0..<9])"

text \<open>The mark in a cell, if there is one.\<close>

fun mark_of :: "cell option \<Rightarrow> mark option" where
  "mark_of (Some (Filled m)) = Some m"
| "mark_of (Some Null) = None"
| "mark_of None = None"

text \<open>The cells that a list of triples covers, each once.\<close>

definition line_cells :: "(int \<times> int \<times> int) list \<Rightarrow> int list" where
  "line_cells ts = remdups (concat (map (\<lambda>(a, b, c). [a, b, c]) ts))"

subsection \<open>Invariants of the reachable states\<close>

text \<open>
  The board keeps its nine cells: the array has at least nine elements, none of the
  first nine is a hole, and an element beyond them is a hole or a mark, never \<open>null\<close>.
\<close>

definition board_ok :: "js_array \<Rightarrow> bool" where
  "board_ok b =
     (9 \<le> len b
      \<and> (\<forall>k. 0 \<le> k \<and> k < 9 \<longrightarrow> slots b k \<noteq> None)
      \<and> (\<forall>k. 9 \<le> k \<and> k < int (len b) \<longrightarrow> slots b k \<noteq> Some Null))"

text \<open>\<open>winnerInfo\<close> and \<open>isDraw\<close> are the ones computed from the board.\<close>

definition state_ok :: "app_state \<Rightarrow> bool" where
  "state_ok s =
     (board_ok (board s)
      \<and> winnerInfo s = calculateWinner (board s)
      \<and> isDraw s = (winner (winnerInfo s) = None \<and> every_Boolean (board s)))"

text \<open>X has as many cells as O when X is next, and one more when O is next.\<close>

definition balanced :: "app_state \<Rightarrow> bool" where
  "balanced s =
     (count_mark MarkX (board s) = count_mark MarkO (board s) + (if xIsNext s then 0 else 1))"

section \<open>Properties\<close>

subsection \<open>The click handler, field by field\<close>

lemma click_rejected:
  "winner (winnerInfo s) \<noteq> None \<or> isDraw s \<or> Boolean (array_get (board s) idx)
   \<Longrightarrow> handleSquareClick idx s = s"
  by (simp add: handleSquareClick_def)

lemma click_theme: "theme (handleSquareClick idx s) = theme s"
  by (simp add: handleSquareClick_def Let_def)

lemma click_not_both:
  "\<not> (winner (winnerInfo s) \<noteq> None \<and> isDraw s)
   \<Longrightarrow> \<not> (winner (winnerInfo (handleSquareClick idx s)) \<noteq> None
          \<and> isDraw (handleSquareClick idx s))"
  by (auto simp: handleSquareClick_def Let_def)

lemma dispatch_not_both:
  "\<not> (winner (winnerInfo s) \<noteq> None \<and> isDraw s)
   \<Longrightarrow> \<not> (winner (winnerInfo (dispatch e s)) \<noteq> None \<and> isDraw (dispatch e s))"
proof (cases e)
  case (Click idx)
  assume "\<not> (winner (winnerInfo s) \<noteq> None \<and> isDraw s)"
  from click_not_both [OF this] Click show ?thesis by simp
qed (simp_all add: newGame_def resetScores_def toggleTheme_def)

lemma run_not_both:
  "\<not> (winner (winnerInfo s) \<noteq> None \<and> isDraw s)
   \<Longrightarrow> \<not> (winner (winnerInfo (run s evs)) \<noteq> None \<and> isDraw (run s evs))"
proof (induction evs arbitrary: s)
  case Nil
  then show ?case by simp
next
  case (Cons e evs)
  from dispatch_not_both [OF Cons.prems] have "\<not> (winner (winnerInfo (dispatch e s)) \<noteq> None \<and> isDraw (dispatch e s))" .
  from Cons.IH [OF this] show ?case by simp
qed

subsection \<open>Arrays and the board invariant\<close>

lemma Boolean_iff: "Boolean c \<longleftrightarrow> (\<exists>m. c = Some (Filled m))"
  by (cases c rule: Boolean.cases) simp_all

lemma get_set_slice:
  "array_get (array_set (array_slice b) idx v) k =
     (if k = idx then Some v
      else if 0 \<le> k \<and> k < int (len b) then array_get b k else None)"
  by (simp add: array_get_def array_set_def array_slice_def)

lemma len_set_slice:
  "len (array_set (array_slice b) idx v) =
     (if is_array_index idx then max (len b) (nat idx + 1) else len b)"
  by (simp add: array_set_def array_slice_def)

lemma board_ok_fill: "board_ok (array_fill_null 9)"
  by (simp add: board_ok_def array_fill_null_def)


lemma board_ok_set_slice:
  assumes "board_ok b"
  shows "board_ok (array_set (array_slice b) idx (Filled m))"
proof -
  let ?nb = "array_set (array_slice b) idx (Filled m)"
  have s: "\<And>k. slots ?nb k = (if k = idx then Some (Filled m)
      else if 0 \<le> k \<and> k < int (len b) then slots b k else None)"
    using get_set_slice [of b idx "Filled m"] by (simp add: array_get_def)
  have l: "len b \<le> len ?nb" by (simp add: len_set_slice)
  from assms have b9: "9 \<le> len b" by (simp add: board_ok_def)
  from assms have lo: "\<And>k. 0 \<le> k \<Longrightarrow> k < 9 \<Longrightarrow> slots b k \<noteq> None" by (simp add: board_ok_def)
  from assms have hi: "\<And>k. 9 \<le> k \<Longrightarrow> k < int (len b) \<Longrightarrow> slots b k \<noteq> Some Null" by (simp add: board_ok_def)
  have 1: "9 \<le> len ?nb" using b9 l by simp
  have 2: "\<forall>k. 0 \<le> k \<and> k < 9 \<longrightarrow> slots ?nb k \<noteq> None"
    using lo b9 by (simp add: s)
  have 3: "\<forall>k. 9 \<le> k \<and> k < int (len ?nb) \<longrightarrow> slots ?nb k \<noteq> Some Null"
    using hi by (simp add: s)
  from 1 2 3 show ?thesis unfolding board_ok_def by blast
qed


lemma not_Null_iff: "c \<noteq> Some Null \<longleftrightarrow> c = None \<or> Boolean c"
  by (cases c rule: Boolean.cases) simp_all

lemma every_Boolean_iff:
  "every_Boolean b \<longleftrightarrow> (\<forall>k. 0 \<le> k \<and> k < int (len b) \<longrightarrow> slots b k \<noteq> Some Null)"
proof
  assume e: "every_Boolean b"
  show "\<forall>k. 0 \<le> k \<and> k < int (len b) \<longrightarrow> slots b k \<noteq> Some Null"
  proof (intro allI impI)
    fix k :: int assume k: "0 \<le> k \<and> k < int (len b)"
    then have "nat k \<in> set [0..<len b]" and kk: "int (nat k) = k" by auto
    with e have "slots b (int (nat k)) = None \<or> Boolean (slots b (int (nat k)))"
      unfolding every_Boolean_def list_all_iff by blast
    with kk show "slots b k \<noteq> Some Null" by (simp add: not_Null_iff)
  qed
next
  assume h: "\<forall>k. 0 \<le> k \<and> k < int (len b) \<longrightarrow> slots b k \<noteq> Some Null"
  show "every_Boolean b"
    unfolding every_Boolean_def list_all_iff
  proof
    fix n assume "n \<in> set [0..<len b]"
    then have "0 \<le> int n \<and> int n < int (len b)" by simp
    with h have "slots b (int n) \<noteq> Some Null" by blast
    then show "slots b (int n) = None \<or> Boolean (slots b (int n))" by (simp add: not_Null_iff)
  qed
qed

lemma cells_filled_iff:
  "cells_filled b \<longleftrightarrow> (\<forall>k. 0 \<le> k \<and> k < 9 \<longrightarrow> Boolean (array_get b k))"
proof
  assume c: "cells_filled b"
  show "\<forall>k. 0 \<le> k \<and> k < 9 \<longrightarrow> Boolean (array_get b k)"
  proof (intro allI impI)
    fix k :: int assume "0 \<le> k \<and> k < 9"
    then have "nat k \<in> set [0..<9]" and kk: "int (nat k) = k" by auto
    with c have "Boolean (array_get b (int (nat k)))"
      unfolding cells_filled_def list_all_iff by blast
    with kk show "Boolean (array_get b k)" by simp
  qed
next
  assume h: "\<forall>k. 0 \<le> k \<and> k < 9 \<longrightarrow> Boolean (array_get b k)"
  show "cells_filled b"
    unfolding cells_filled_def list_all_iff
  proof
    fix n :: nat assume "n \<in> set [0..<9]"
    then have "0 \<le> int n \<and> int n < 9" by simp
    with h show "Boolean (array_get b (int n))" by blast
  qed
qed

lemma every_is_filled:
  assumes "board_ok b"
  shows "every_Boolean b \<longleftrightarrow> cells_filled b"
proof
  assume "every_Boolean b"
  then have e: "\<forall>k. 0 \<le> k \<and> k < int (len b) \<longrightarrow> slots b k \<noteq> Some Null"
    by (simp add: every_Boolean_iff)
  show "cells_filled b"
    unfolding cells_filled_iff
  proof (intro allI impI)
    fix k :: int assume k: "0 \<le> k \<and> k < 9"
    with assms have n: "slots b k \<noteq> None" and "k < int (len b)" by (auto simp: board_ok_def)
    with e k have "slots b k \<noteq> Some Null" by simp
    with n show "Boolean (array_get b k)" by (auto simp: not_Null_iff array_get_def)
  qed
next
  assume "cells_filled b"
  then have f: "\<forall>k. 0 \<le> k \<and> k < 9 \<longrightarrow> Boolean (array_get b k)" by (simp add: cells_filled_iff)
  show "every_Boolean b"
    unfolding every_Boolean_iff
  proof (intro allI impI)
    fix k :: int assume k: "0 \<le> k \<and> k < int (len b)"
    show "slots b k \<noteq> Some Null"
    proof (cases "k < 9")
      case True
      with k f have "Boolean (array_get b k)" by simp
      then show ?thesis by (simp add: not_Null_iff array_get_def)
    next
      case False
      with k assms show ?thesis by (simp add: board_ok_def)
    qed
  qed
qed




lemma scan_case_as_if:
  "(case x of
      Some (Filled m) \<Rightarrow> (if x = y \<and> y = z then W (Some m) else R)
    | _ \<Rightarrow> R)
   = (if Boolean x \<and> x = y \<and> y = z then W (mark_of x) else R)"
  by (cases x rule: Boolean.cases) auto

lemma scan_lines_step:
  "scan_lines b ((a, b', c) # rest) =
     (if triple_matches b (a, b', c)
      then \<lparr>winner = mark_of (array_get b a), line = [a, b', c]\<rparr>
      else scan_lines b rest)"
  unfolding scan_lines.simps triple_matches_def prod.case
  by (rule scan_case_as_if [where W = "\<lambda>w. \<lparr>winner = w, line = [a, b', c]\<rparr>"])

lemma mark_of_Boolean: "Boolean c \<Longrightarrow> mark_of c \<noteq> None"
  by (cases c rule: Boolean.cases) simp_all

lemma scan_lines_winner_None:
  "winner (scan_lines b ls) = None \<longleftrightarrow> (\<forall>t\<in>set ls. \<not> triple_matches b t)"
proof (induction ls)
  case Nil
  then show ?case by simp
next
  case (Cons t ls)
  obtain a b' c where t: "t = (a, b', c)" by (cases t)
  show ?case
  proof (cases "triple_matches b (a, b', c)")
    case True
    then have "Boolean (array_get b a)" unfolding triple_matches_def prod.case by blast
    then have "mark_of (array_get b a) \<noteq> None" by (rule mark_of_Boolean)
    with True t show ?thesis by (simp add: scan_lines_step del: scan_lines.simps)
  next
    case False
    with Cons.IH t show ?thesis by (simp add: scan_lines_step del: scan_lines.simps)
  qed
qed

lemma scan_lines_no_match:
  "find (triple_matches b) ls = None \<Longrightarrow> scan_lines b ls = \<lparr>winner = None, line = []\<rparr>"
proof (induction ls)
  case Nil
  then show ?case by simp
next
  case (Cons t ls)
  obtain a b' c where t: "t = (a, b', c)" by (cases t)
  from Cons.prems t have "\<not> triple_matches b (a, b', c)" and "find (triple_matches b) ls = None"
    by (auto split: if_splits)
  with Cons.IH t show ?case by (simp add: scan_lines_step del: scan_lines.simps)
qed

lemma scan_lines_first_match:
  "find (triple_matches b) ls = Some (a, b', c)
   \<Longrightarrow> scan_lines b ls = \<lparr>winner = mark_of (array_get b a), line = [a, b', c]\<rparr>"
proof (induction ls)
  case Nil
  then show ?case by simp
next
  case (Cons t ls)
  obtain x y z where t: "t = (x, y, z)" by (cases t)
  show ?case
  proof (cases "triple_matches b (x, y, z)")
    case True
    with Cons.prems t have "(x, y, z) = (a, b', c)" by simp
    with True show ?thesis by (simp add: t scan_lines_step del: scan_lines.simps)
  next
    case False
    with Cons.prems t have "find (triple_matches b) ls = Some (a, b', c)" by simp
    from Cons.IH [OF this] False t show ?thesis
      by (simp add: scan_lines_step del: scan_lines.simps)
  qed
qed

lemma lines_range:
  "(a, b', c) \<in> set lines
   \<Longrightarrow> 0 \<le> a \<and> a < 9 \<and> 0 \<le> b' \<and> b' < 9 \<and> 0 \<le> c \<and> c < 9"
  by (auto simp: lines_def)

lemma new_match_through_idx:
  assumes ok: "board_ok b"
    and empty: "\<not> Boolean (array_get b idx)"
    and before: "\<forall>t\<in>set lines. \<not> triple_matches b t"
    and t: "(a, b', c) \<in> set lines"
    and after: "triple_matches (array_set (array_slice b) idx (Filled m)) (a, b', c)"
  shows "idx \<in> {a, b', c} \<and> array_get (array_set (array_slice b) idx (Filled m)) a = Some (Filled m)"
proof -
  let ?nb = "array_set (array_slice b) idx (Filled m)"
  from ok have l: "9 \<le> int (len b)" by (simp add: board_ok_def)
  from lines_range [OF t] l
  have r: "0 \<le> a \<and> a < int (len b)" "0 \<le> b' \<and> b' < int (len b)" "0 \<le> c \<and> c < int (len b)"
    by auto
  have ga: "array_get ?nb a = (if a = idx then Some (Filled m) else array_get b a)"
    using r(1) by (simp add: get_set_slice)
  have gb: "array_get ?nb b' = (if b' = idx then Some (Filled m) else array_get b b')"
    using r(2) by (simp add: get_set_slice)
  have gc: "array_get ?nb c = (if c = idx then Some (Filled m) else array_get b c)"
    using r(3) by (simp add: get_set_slice)
  from after have "Boolean (array_get ?nb a) \<and> array_get ?nb a = array_get ?nb b'
      \<and> array_get ?nb b' = array_get ?nb c"
    unfolding triple_matches_def prod.case .
  then have m: "Boolean (array_get ?nb a)" "array_get ?nb a = array_get ?nb b'"
    "array_get ?nb b' = array_get ?nb c"
    by blast+
  have inside: "idx \<in> {a, b', c}"
  proof (rule ccontr)
    assume "idx \<notin> {a, b', c}"
    then have "a \<noteq> idx" "b' \<noteq> idx" "c \<noteq> idx" by auto
    with m ga gb gc have "triple_matches b (a, b', c)" by (simp add: triple_matches_def)
    with before t show False by blast
  qed
  have "array_get ?nb a = Some (Filled m)"
  proof -
    from inside consider "a = idx" | "b' = idx" | "c = idx" by auto
    then show ?thesis
    proof cases
      case 1 with ga show ?thesis by simp
    next
      case 2 with gb m show ?thesis by simp
    next
      case 3 with gc m show ?thesis by simp
    qed
  qed
  with inside show ?thesis by simp
qed

lemma click_accepted_board:
  "\<not> gameOver s \<Longrightarrow> \<not> Boolean (array_get (board s) idx)
   \<Longrightarrow> board (handleSquareClick idx s) = array_set (array_slice (board s)) idx (Filled (turn s))"
  by (simp add: handleSquareClick_def gameOver_def Let_def turn_def)

lemma click_accepted_xIsNext:
  "\<not> gameOver s \<Longrightarrow> \<not> Boolean (array_get (board s) idx)
   \<Longrightarrow> xIsNext (handleSquareClick idx s) = (\<not> xIsNext s)"
  by (simp add: handleSquareClick_def gameOver_def Let_def)

lemma click_accepted_winnerInfo:
  "\<not> gameOver s \<Longrightarrow> \<not> Boolean (array_get (board s) idx)
   \<Longrightarrow> winnerInfo (handleSquareClick idx s) = calculateWinner (board (handleSquareClick idx s))"
  by (simp add: handleSquareClick_def gameOver_def Let_def)

lemma click_accepted_isDraw:
  "\<not> gameOver s \<Longrightarrow> \<not> Boolean (array_get (board s) idx)
   \<Longrightarrow> isDraw (handleSquareClick idx s) =
        (winner (winnerInfo (handleSquareClick idx s)) = None
         \<and> every_Boolean (board (handleSquareClick idx s)))"
  by (simp add: handleSquareClick_def gameOver_def Let_def)

lemma click_accepted_scores:
  "\<not> gameOver s \<Longrightarrow> \<not> Boolean (array_get (board s) idx)
   \<Longrightarrow> scores (handleSquareClick idx s) =
        (case winner (winnerInfo (handleSquareClick idx s)) of
           Some w \<Rightarrow> bump_winner w (scores s)
         | None \<Rightarrow> if isDraw (handleSquareClick idx s)
                   then (scores s)\<lparr>draws := draws (scores s) + 1\<rparr> else scores s)"
  by (simp add: handleSquareClick_def gameOver_def Let_def)

lemma click_cases:
  obtains (rejected) "gameOver s \<or> Boolean (array_get (board s) idx)" "handleSquareClick idx s = s"
  | (accepted) "\<not> gameOver s" "\<not> Boolean (array_get (board s) idx)"
proof (cases "gameOver s \<or> Boolean (array_get (board s) idx)")
  case True
  then have "handleSquareClick idx s = s" by (simp add: handleSquareClick_def gameOver_def)
  with True show ?thesis by (rule rejected)
next
  case False
  then show ?thesis using accepted by blast
qed

lemma calculateWinner_empty:
  "calculateWinner (array_fill_null 9) = \<lparr>winner = None, line = []\<rparr>"
  by code_simp

lemma every_Boolean_empty: "\<not> every_Boolean (array_fill_null 9)"
  by code_simp

lemma state_ok_click:
  assumes "state_ok s"
  shows "state_ok (handleSquareClick idx s)"
proof (cases rule: click_cases [of s idx])
  case rejected
  with assms show ?thesis by simp
next
  case accepted
  from assms have "board_ok (board s)" by (simp add: state_ok_def)
  then have "board_ok (board (handleSquareClick idx s))"
    by (simp add: click_accepted_board [OF accepted] board_ok_set_slice)
  with click_accepted_winnerInfo [OF accepted] click_accepted_isDraw [OF accepted]
  show ?thesis by (simp add: state_ok_def)
qed

lemma state_ok_newGame: "state_ok (newGame s)"
  by (simp add: state_ok_def newGame_def board_ok_fill calculateWinner_empty every_Boolean_empty)

lemma state_ok_initial: "state_ok initial_state"
  by (simp add: state_ok_def initial_state_def board_ok_fill calculateWinner_empty every_Boolean_empty)

lemma state_ok_dispatch: "state_ok s \<Longrightarrow> state_ok (dispatch e s)"
proof (cases e)
  case (Click idx)
  assume "state_ok s"
  from state_ok_click [OF this] Click show ?thesis by simp
next
  case NewGame
  then show ?thesis by (simp add: state_ok_newGame)
next
  case ResetScores
  have "state_ok (resetScores s) = state_ok (newGame s)"
    by (simp add: state_ok_def resetScores_def)
  with ResetScores show ?thesis by (simp add: state_ok_newGame)
next
  case ToggleTheme
  assume "state_ok s"
  then have "state_ok (toggleTheme s)" by (simp add: state_ok_def toggleTheme_def)
  with ToggleTheme show ?thesis by simp
qed

lemma state_ok_run: "state_ok s \<Longrightarrow> state_ok (run s evs)"
proof (induction evs arbitrary: s)
  case Nil
  then show ?case by simp
next
  case (Cons e evs)
  from state_ok_dispatch [OF Cons.prems] have "state_ok (dispatch e s)" .
  from Cons.IH [OF this] show ?case by simp
qed

lemma play_is_run: "play s idxs = run s (map Click idxs)"
  by (induction idxs arbitrary: s) simp_all

lemma in_progress_no_match:
  assumes "state_ok s" and "\<not> gameOver s"
  shows "\<forall>t\<in>set lines. \<not> triple_matches (board s) t"
proof -
  from assms have "winner (calculateWinner (board s)) = None"
    by (simp add: state_ok_def gameOver_def)
  then show ?thesis by (simp add: calculateWinner_def scan_lines_winner_None)
qed

lemma in_progress_not_filled:
  assumes "state_ok s" and "\<not> gameOver s"
  shows "\<not> cells_filled (board s)"
proof -
  from assms have "\<not> every_Boolean (board s)" and "board_ok (board s)"
    by (auto simp: state_ok_def gameOver_def)
  then show ?thesis by (simp add: every_is_filled)
qed




lemma accepted_guard:
  "accepted s idx \<Longrightarrow> \<not> gameOver s \<and> \<not> Boolean (array_get (board s) idx)"
  by (simp add: accepted_def)

lemma outcome_win:
  "winnerInfo s = \<lparr>winner = Some w, line = l\<rparr> \<Longrightarrow> outcome s = WIN w l"
  by (simp add: outcome_def)

lemma outcome_no_winner:
  "winnerInfo s = \<lparr>winner = None, line = []\<rparr>
   \<Longrightarrow> outcome s = (if isDraw s then DRAW else IN_PROGRESS)"
  by (simp add: outcome_def)

lemma bump_winner_turn:
  "bump_winner (turn s) sc =
     (if turn s = MarkX then sc\<lparr>score_X := score_X sc + 1\<rparr>
      else sc\<lparr>score_O := score_O sc + 1\<rparr>)"
  by (simp add: turn_def)

lemma turn_flips: "xIsNext s' = (\<not> xIsNext s) \<Longrightarrow> turn s' \<noteq> turn s"
  by (simp add: turn_def)

lemma accepted_move_conclusion:
  assumes ok: "state_ok s" and acc: "\<not> gameOver s" "\<not> Boolean (array_get (board s) idx)"
  shows "case find (triple_matches (board (handleSquareClick idx s))) lines of
           Some (a, b, c) \<Rightarrow>
             outcome (handleSquareClick idx s) = WIN (turn s) [a, b, c]
             \<and> scores (handleSquareClick idx s) =
                 (if turn s = MarkX then (scores s)\<lparr>score_X := score_X (scores s) + 1\<rparr>
                  else (scores s)\<lparr>score_O := score_O (scores s) + 1\<rparr>)
         | None \<Rightarrow>
             if cells_filled (board (handleSquareClick idx s))
             then outcome (handleSquareClick idx s) = DRAW
                  \<and> scores (handleSquareClick idx s) = (scores s)\<lparr>draws := draws (scores s) + 1\<rparr>
             else outcome (handleSquareClick idx s) = IN_PROGRESS
                  \<and> scores (handleSquareClick idx s) = scores s"
proof -
  let ?s' = "handleSquareClick idx s"
  let ?nb = "array_set (array_slice (board s)) idx (Filled (turn s))"
  from ok have bok: "board_ok (board s)" by (simp add: state_ok_def)
  have nb: "board ?s' = ?nb" by (rule click_accepted_board [OF acc])
  have wi: "winnerInfo ?s' = scan_lines ?nb lines"
    using click_accepted_winnerInfo [OF acc] nb by (simp add: calculateWinner_def)
  have nbok: "board_ok ?nb" by (rule board_ok_set_slice [OF bok])
  have dr: "isDraw ?s' = (winner (winnerInfo ?s') = None \<and> cells_filled ?nb)"
    using click_accepted_isDraw [OF acc] nb every_is_filled [OF nbok] by simp
  note sc = click_accepted_scores [OF acc]
  show ?thesis
  proof (cases "find (triple_matches ?nb) lines")
    case None
    then have w: "winnerInfo ?s' = \<lparr>winner = None, line = []\<rparr>"
      using wi by (simp add: scan_lines_no_match)
    with dr have d: "isDraw ?s' = cells_filled ?nb" by simp
    from w sc have "scores ?s' =
        (if isDraw ?s' then (scores s)\<lparr>draws := draws (scores s) + 1\<rparr> else scores s)"
      by simp
    with None d outcome_no_winner [OF w] show ?thesis by (simp add: nb)
  next
    case (Some t)
    obtain a b c where t: "t = (a, b, c)" by (cases t)
    from Some t have f: "find (triple_matches ?nb) lines = Some (a, b, c)" by simp
    then have "(a, b, c) \<in> set lines" and "triple_matches ?nb (a, b, c)"
      by (auto simp: find_Some_iff)
    from new_match_through_idx [OF bok acc(2) in_progress_no_match [OF ok acc(1)] this]
    have "array_get ?nb a = Some (Filled (turn s))" by simp
    with scan_lines_first_match [OF f] wi
    have w: "winnerInfo ?s' = \<lparr>winner = Some (turn s), line = [a, b, c]\<rparr>" by simp
    with sc have "scores ?s' = bump_winner (turn s) (scores s)" by simp
    with f outcome_win [OF w] show ?thesis by (simp add: nb bump_winner_turn)
  qed
qed

lemma count_filter_one_more:
  assumes "distinct ks" and "\<forall>k\<in>set ks. k \<noteq> j \<longrightarrow> P' k = P k" and "\<not> P j"
  shows "length (filter P' ks) = length (filter P ks) + (if j \<in> set ks \<and> P' j then 1 else 0)"
  using assms(1,2)
proof (induction ks)
  case Nil
  then show ?case by simp
next
  case (Cons k ks)
  then have ih: "length (filter P' ks) = length (filter P ks) + (if j \<in> set ks \<and> P' j then 1 else 0)"
    and nk: "k \<notin> set ks" by simp_all
  show ?case
  proof (cases "k = j")
    case True
    with nk ih assms(3) show ?thesis by simp
  next
    case False
    with Cons.prems have "P' k = P k" by simp
    with False ih show ?thesis by auto
  qed
qed

lemma count_mark_set:
  assumes "9 \<le> len b" and "0 \<le> idx" and "idx \<le> 8" and "\<not> Boolean (array_get b idx)"
  shows "count_mark m' (array_set (array_slice b) idx (Filled m))
       = count_mark m' b + (if m' = m then 1 else 0)"
proof -
  let ?nb = "array_set (array_slice b) idx (Filled m)"
  let ?P' = "\<lambda>k. array_get ?nb (int k) = Some (Filled m')"
  let ?P = "\<lambda>k. array_get b (int k) = Some (Filled m')"
  from assms(2) have i: "int (nat idx) = idx" by simp
  from assms(4) i have n: "\<not> ?P (nat idx)" by (auto simp: Boolean_iff)
  have d: "distinct [0..<9]" by simp
  have r: "\<forall>k\<in>set [0..<9]. k \<noteq> nat idx \<longrightarrow> ?P' k = ?P k"
  proof (intro ballI impI)
    fix k assume "k \<in> set [0..<9]" and "k \<noteq> nat idx"
    with assms(1,2) have "int k \<noteq> idx" and "0 \<le> int k \<and> int k < int (len b)" by auto
    then show "?P' k = ?P k" by (simp add: get_set_slice)
  qed
  from assms(2,3) have mem: "nat idx \<in> set [0..<9]" by auto
  have new: "?P' (nat idx) = (m' = m)" using i by (auto simp: get_set_slice)
  from count_filter_one_more [of "[0..<9]" "nat idx" ?P' ?P, OF d r n] mem new
  show ?thesis unfolding count_mark_def by simp
qed

lemma balanced_click:
  assumes ok: "state_ok s" and bal: "balanced s" and acc: "accepted s idx"
  shows "balanced (handleSquareClick idx s)"
proof -
  note g = accepted_guard [OF acc, THEN conjunct1] accepted_guard [OF acc, THEN conjunct2]
  from acc have r: "0 \<le> idx" "idx \<le> 8" by (simp_all add: accepted_def)
  from ok have l: "9 \<le> len (board s)" by (simp add: state_ok_def board_ok_def)
  note c = count_mark_set [OF l r g(2)]
  from bal show ?thesis
    unfolding balanced_def click_accepted_board [OF g] click_accepted_xIsNext [OF g] c
    by (cases "xIsNext s") (simp_all add: turn_def)
qed

lemma balanced_play:
  "state_ok s \<Longrightarrow> balanced s \<Longrightarrow> all_accepted s idxs \<Longrightarrow> balanced (play s idxs)"
proof (induction idxs arbitrary: s)
  case Nil
  then show ?case by simp
next
  case (Cons i idxs)
  from Cons.prems have a: "accepted s i" and r: "all_accepted (handleSquareClick i s) idxs"
    by simp_all
  from Cons.IH [OF state_ok_click [OF Cons.prems(1)] balanced_click [OF Cons.prems(1,2) a] r]
  show ?case by simp
qed

lemma count_mark_empty: "count_mark m (array_fill_null 9) = 0"
  by (simp add: count_mark_def array_get_def array_fill_null_def)

lemma balanced_newGame: "balanced (newGame s)"
  by (simp add: balanced_def newGame_def count_mark_empty)

lemma play_append: "play s (idxs @ [i]) = handleSquareClick i (play s idxs)"
  by (induction idxs arbitrary: s) simp_all

lemma all_accepted_append:
  "all_accepted s (idxs @ [i]) \<longleftrightarrow> all_accepted s idxs \<and> accepted (play s idxs) i"
  by (induction idxs arbitrary: s) simp_all

lemma state_ok_play: "state_ok s \<Longrightarrow> state_ok (play s idxs)"
  by (simp add: play_is_run state_ok_run)

lemma scan_lines_same_winner:
  assumes "\<forall>(a, b', c)\<in>set ls. triple_matches b (a, b', c) \<longrightarrow> array_get b a = Some (Filled m)"
    and "\<exists>t\<in>set ls. triple_matches b t"
  shows "winner (scan_lines b ls) = Some m"
proof (cases "find (triple_matches b) ls")
  case None
  with assms(2) show ?thesis by (auto simp: find_None_iff)
next
  case (Some t)
  obtain a b' c where t: "t = (a, b', c)" by (cases t)
  from Some t have f: "find (triple_matches b) ls = Some (a, b', c)" by simp
  then have "(a, b', c) \<in> set ls" and "triple_matches b (a, b', c)"
    by (auto simp: find_Some_iff)
  with assms(1) have "array_get b a = Some (Filled m)" by blast
  with scan_lines_first_match [OF f] show ?thesis by simp
qed


lemma three_lines_cover_six:
  "list_all (\<lambda>ts. 3 \<le> length ts \<longrightarrow> 6 \<le> length (line_cells ts)) (subseqs lines)"
  by code_simp

lemma filter_in_subseqs: "filter P xs \<in> set (subseqs xs)"
  by (induction xs) (simp_all add: Let_def)

lemma disjoint_filters_length:
  "\<forall>x. \<not> (P x \<and> Q x) \<Longrightarrow> length (filter P xs) + length (filter Q xs) \<le> length xs"
  by (induction xs) auto

lemma counts_at_most_nine: "count_mark MarkX b + count_mark MarkO b \<le> 9"
proof -
  have "\<forall>k. \<not> (array_get b (int k) = Some (Filled MarkX) \<and> array_get b (int k) = Some (Filled MarkO))"
    by simp
  from disjoint_filters_length [OF this, of "[0..<9]"] show ?thesis
    by (simp add: count_mark_def)
qed

lemma balanced_at_most_five: "balanced s \<Longrightarrow> count_mark m (board s) \<le> 5"
  using counts_at_most_nine [of "board s"]
  by (cases m) (auto simp: balanced_def split: if_splits)

lemma cells_le_count:
  assumes "distinct ks" and "\<forall>k\<in>set ks. 0 \<le> k \<and> k < 9 \<and> array_get b k = Some (Filled m)"
  shows "length ks \<le> count_mark m b"
proof -
  let ?P = "\<lambda>n. array_get b (int n) = Some (Filled m)"
  from assms(2) have inj: "inj_on nat (set ks)"
    by (intro inj_onI) (simp add: eq_nat_nat_iff)
  have sub: "nat ` set ks \<subseteq> {n. ?P n} \<inter> set [0..<9]"
  proof
    fix n assume "n \<in> nat ` set ks"
    then obtain k where k: "k \<in> set ks" and n: "n = nat k" by blast
    with assms(2) have "0 \<le> k \<and> k < 9 \<and> array_get b k = Some (Filled m)" by blast
    with n show "n \<in> {n. ?P n} \<inter> set [0..<9]" by auto
  qed
  have "length ks = card (set ks)" using assms(1) by (simp add: distinct_card)
  also have "\<dots> = card (nat ` set ks)" using inj by (simp add: card_image)
  also have "\<dots> \<le> card ({n. ?P n} \<inter> set [0..<9])"
    by (rule card_mono [OF _ sub]) simp
  also have "\<dots> = count_mark m b"
    unfolding count_mark_def by (simp add: distinct_length_filter)
  finally show ?thesis .
qed

lemma matching_lines_at_most_two:
  assumes five: "count_mark m b \<le> 5"
    and same: "\<forall>(a, b', c)\<in>set lines. triple_matches b (a, b', c) \<longrightarrow> array_get b a = Some (Filled m)"
  shows "length (filter (triple_matches b) lines) \<le> 2"
proof (rule ccontr)
  let ?ts = "filter (triple_matches b) lines"
  assume "\<not> length ?ts \<le> 2"
  then have three: "3 \<le> length ?ts" by simp
  have "?ts \<in> set (subseqs lines)" by (rule filter_in_subseqs)
  with three_lines_cover_six three have six: "6 \<le> length (line_cells ?ts)"
    unfolding list_all_iff by blast
  have "\<forall>k\<in>set (line_cells ?ts). 0 \<le> k \<and> k < 9 \<and> array_get b k = Some (Filled m)"
  proof
    fix k assume "k \<in> set (line_cells ?ts)"
    then obtain a b' c where t: "(a, b', c) \<in> set lines" and m: "triple_matches b (a, b', c)"
      and k: "k \<in> {a, b', c}"
      by (auto simp: line_cells_def)
    from same t m have a: "array_get b a = Some (Filled m)" by blast
    from m have "array_get b a = array_get b b' \<and> array_get b b' = array_get b c"
      unfolding triple_matches_def prod.case by blast
    with a have "array_get b b' = Some (Filled m)" "array_get b c = Some (Filled m)" by simp_all
    with a k lines_range [OF t] show "0 \<le> k \<and> k < 9 \<and> array_get b k = Some (Filled m)" by auto
  qed
  from cells_le_count [OF _ this] have "length (line_cells ?ts) \<le> count_mark m b"
    by (simp add: line_cells_def)
  with six five show False by simp
qed

lemma balanced_initial: "balanced initial_state"
  by (simp add: balanced_def initial_state_def count_mark_empty)

subsection \<open>The theme does not matter to the game\<close>

lemma click_theme_update:
  "handleSquareClick idx (s\<lparr>theme := t\<rparr>) = (handleSquareClick idx s)\<lparr>theme := t\<rparr>"
  by (simp add: handleSquareClick_def Let_def split: option.split)

lemma play_theme_update: "play (s\<lparr>theme := t\<rparr>) idxs = (play s idxs)\<lparr>theme := t\<rparr>"
  by (induction idxs arbitrary: s) (simp_all add: click_theme_update)

lemma all_accepted_theme_update: "all_accepted (s\<lparr>theme := t\<rparr>) idxs = all_accepted s idxs"
  by (induction idxs arbitrary: s) (simp_all add: click_theme_update accepted_def gameOver_def)

lemma resetScores_initial: "resetScores s0 = initial_state\<lparr>theme := theme s0\<rparr>"
  by (simp add: resetScores_def newGame_def initial_state_def)

lemma top_row_from_initial:
  "all_accepted initial_state [0, 3, 1, 4, 2]
   \<and> winnerInfo (play initial_state [0, 3, 1, 4, 2]) = \<lparr>winner = Some MarkX, line = [0, 1, 2]\<rparr>
   \<and> isDraw (play initial_state [0, 3, 1, 4, 2]) = False
   \<and> scores (play initial_state [0, 3, 1, 4, 2]) = \<lparr>score_X = 1, score_O = 0, draws = 0\<rparr>"
  by code_simp

subsection \<open>Rejected moves\<close>

text \<open>
  C2. A click while the round is over (won or drawn), or on a cell that holds a mark,
  changes nothing: the state after the call is the state before it, and the call
  completes without an error. In particular every click after a win or a draw leaves
  the whole state as it was.
\<close>

theorem rejected_move_is_noop:
  assumes "gameOver s \<or> (\<exists>m. array_get (board s) idx = Some (Filled m))"
  shows "handleSquareClick idx s = s \<and> applyMove idx s = Inr s"
proof -
  from assms
  have "winner (winnerInfo s) \<noteq> None \<or> isDraw s \<or> Boolean (array_get (board s) idx)"
    by (auto simp: gameOver_def)
  then have "handleSquareClick idx s = s" by (rule click_rejected)
  then show ?thesis by (simp add: applyMove_def)
qed

theorem rejected_move_is_noop_witness:
  "gameOver (play initial_state [0, 3, 1, 4, 2])
   \<and> handleSquareClick 5 (play initial_state [0, 3, 1, 4, 2])
       = play initial_state [0, 3, 1, 4, 2]
   \<and> applyMove 5 (play initial_state [0, 3, 1, 4, 2])
       = Inr (play initial_state [0, 3, 1, 4, 2])"
proof -
  have g: "gameOver (play initial_state [0, 3, 1, 4, 2])" by code_simp
  then have "gameOver (play initial_state [0, 3, 1, 4, 2])
      \<or> (\<exists>m. array_get (board (play initial_state [0, 3, 1, 4, 2])) 5 = Some (Filled m))"
    by simp
  from rejected_move_is_noop [OF this] g show ?thesis by simp
qed

subsection \<open>New game, reset scores, theme\<close>

text \<open>
  C7. From any state, \<open>newGame\<close> yields a board of nine cells that are all \<open>null\<close>, gives
  the turn to X, puts the round in progress (no winner, no winning line, no draw), and
  leaves the three score counters as they were.
\<close>

theorem newGame_resets:
  "len (board (newGame s)) = 9
   \<and> (\<forall>k\<in>{0..8}. array_get (board (newGame s)) k = Some Null)
   \<and> board (newGame s) = array_fill_null 9
   \<and> turn (newGame s) = MarkX
   \<and> winnerInfo (newGame s) = \<lparr>winner = None, line = []\<rparr>
   \<and> \<not> isDraw (newGame s)
   \<and> outcome (newGame s) = IN_PROGRESS
   \<and> scores (newGame s) = scores s"
  by (simp add: newGame_def array_fill_null_def array_get_def turn_def outcome_def)

theorem newGame_resets_witness:
  "array_get (board (newGame (play initial_state [0, 3, 1, 4, 2]))) 0 = Some Null
   \<and> outcome (newGame (play initial_state [0, 3, 1, 4, 2])) = IN_PROGRESS
   \<and> scores (newGame (play initial_state [0, 3, 1, 4, 2]))
       = \<lparr>score_X = 1, score_O = 0, draws = 0\<rparr>"
proof -
  have sc: "scores (play initial_state [0, 3, 1, 4, 2]) = \<lparr>score_X = 1, score_O = 0, draws = 0\<rparr>"
    by code_simp
  have "(0::int) \<in> {0..8}" by simp
  with newGame_resets [of "play initial_state [0, 3, 1, 4, 2]"] sc show ?thesis by metis
qed

text \<open>
  C8. From any state, \<open>resetScores\<close> does what \<open>newGame\<close> does to the board, the turn and
  the outcome, and sets the three score counters to zero.
\<close>

theorem resetScores_resets:
  "board (resetScores s) = board (newGame s)
   \<and> xIsNext (resetScores s) = xIsNext (newGame s)
   \<and> winnerInfo (resetScores s) = winnerInfo (newGame s)
   \<and> isDraw (resetScores s) = isDraw (newGame s)
   \<and> board (resetScores s) = array_fill_null 9
   \<and> turn (resetScores s) = MarkX
   \<and> outcome (resetScores s) = IN_PROGRESS
   \<and> scores (resetScores s) = \<lparr>score_X = 0, score_O = 0, draws = 0\<rparr>"
  by (simp add: resetScores_def newGame_def turn_def outcome_def)

theorem resetScores_resets_witness:
  "scores (play initial_state [0, 3, 1, 4, 2]) = \<lparr>score_X = 1, score_O = 0, draws = 0\<rparr>
   \<and> scores (resetScores (play initial_state [0, 3, 1, 4, 2]))
       = \<lparr>score_X = 0, score_O = 0, draws = 0\<rparr>
   \<and> outcome (resetScores (play initial_state [0, 3, 1, 4, 2])) = IN_PROGRESS"
proof -
  have sc: "scores (play initial_state [0, 3, 1, 4, 2]) = \<lparr>score_X = 1, score_O = 0, draws = 0\<rparr>"
    by code_simp
  from resetScores_resets [of "play initial_state [0, 3, 1, 4, 2]"] sc show ?thesis by simp
qed

text \<open>
  C10. The theme and the game do not touch each other: a click, \<open>newGame\<close> and
  \<open>resetScores\<close> leave the theme as it was, and \<open>toggleTheme\<close> leaves the board, the
  turn, the winner information, the draw flag and the scores as they were.
\<close>

theorem theme_and_game_independent:
  "theme (handleSquareClick idx s) = theme s
   \<and> theme (newGame s) = theme s
   \<and> theme (resetScores s) = theme s
   \<and> board (toggleTheme s) = board s
   \<and> xIsNext (toggleTheme s) = xIsNext s
   \<and> winnerInfo (toggleTheme s) = winnerInfo s
   \<and> isDraw (toggleTheme s) = isDraw s
   \<and> scores (toggleTheme s) = scores s"
  by (simp add: click_theme newGame_def resetScores_def toggleTheme_def)

theorem theme_and_game_independent_witness:
  "theme (handleSquareClick 4 (toggleTheme initial_state)) = ''dark''
   \<and> scores (toggleTheme (toggleTheme initial_state)) = \<lparr>score_X = 0, score_O = 0, draws = 0\<rparr>"
proof -
  have t: "theme (toggleTheme initial_state) = ''dark''"
    by (simp add: toggleTheme_def initial_state_def)
  have s: "scores initial_state = \<lparr>score_X = 0, score_O = 0, draws = 0\<rparr>"
    by (simp add: initial_state_def)
  from theme_and_game_independent [of 4 "toggleTheme initial_state"]
       theme_and_game_independent [of 4 initial_state] t s
  show ?thesis by simp
qed

subsection \<open>The outcome indicators\<close>

text \<open>
  C6. In every state reached from the initial state by clicks (at any index), new
  games, score resets and theme toggles, the winner and the draw flag are never both
  set, and the round is in progress exactly when neither is set: exactly one of
  in progress, win and draw holds.
\<close>

theorem exactly_one_outcome:
  "\<not> (winner (winnerInfo (run initial_state evs)) \<noteq> None \<and> isDraw (run initial_state evs))
   \<and> (outcome (run initial_state evs) = IN_PROGRESS
        \<longleftrightarrow> winner (winnerInfo (run initial_state evs)) = None
            \<and> \<not> isDraw (run initial_state evs))
   \<and> (outcome (run initial_state evs) = DRAW \<longleftrightarrow> isDraw (run initial_state evs))
   \<and> ((\<exists>w l. outcome (run initial_state evs) = WIN w l)
        \<longleftrightarrow> winner (winnerInfo (run initial_state evs)) \<noteq> None)"
proof -
  have "\<not> (winner (winnerInfo initial_state) \<noteq> None \<and> isDraw initial_state)"
    by (simp add: initial_state_def)
  from run_not_both [OF this]
  have nb: "\<not> (winner (winnerInfo (run initial_state evs)) \<noteq> None
              \<and> isDraw (run initial_state evs))" .
  then show ?thesis
    by (auto simp: outcome_def split: option.splits)
qed

theorem exactly_one_outcome_witness:
  "outcome (run initial_state [Click 0, Click 3, Click 1, Click 4, Click 2]) = WIN MarkX [0, 1, 2]
   \<and> \<not> isDraw (run initial_state [Click 0, Click 3, Click 1, Click 4, Click 2])"
proof -
  have "outcome (run initial_state [Click 0, Click 3, Click 1, Click 4, Click 2]) = WIN MarkX [0, 1, 2]"
    by code_simp
  with exactly_one_outcome [of "[Click 0, Click 3, Click 1, Click 4, Click 2]"]
  show ?thesis by simp
qed

subsection \<open>A won round\<close>

text \<open>
  C9. From a fresh round with all scores at zero (the state after \<open>resetScores\<close>,
  which is the initial state up to the theme), the clicks on cells 0, 3, 1, 4, 2
  (X, O, X, O, X) are all accepted and end with X as the winner on the line
  \<open>[0, 1, 2]\<close> and the scores X = 1, O = 0, draws = 0.
\<close>

theorem top_row_win:
  "all_accepted (resetScores s0) [0, 3, 1, 4, 2]
   \<and> outcome (play (resetScores s0) [0, 3, 1, 4, 2]) = WIN MarkX [0, 1, 2]
   \<and> winnerInfo (play (resetScores s0) [0, 3, 1, 4, 2]) = \<lparr>winner = Some MarkX, line = [0, 1, 2]\<rparr>
   \<and> scores (play (resetScores s0) [0, 3, 1, 4, 2]) = \<lparr>score_X = 1, score_O = 0, draws = 0\<rparr>"
proof -
  let ?p = "play initial_state [0, 3, 1, 4, 2]"
  have p: "play (resetScores s0) [0, 3, 1, 4, 2] = ?p\<lparr>theme := theme s0\<rparr>"
    unfolding resetScores_initial by (rule play_theme_update)
  have a: "all_accepted (resetScores s0) [0, 3, 1, 4, 2] = all_accepted initial_state [0, 3, 1, 4, 2]"
    unfolding resetScores_initial by (rule all_accepted_theme_update)
  from top_row_from_initial show ?thesis
    unfolding p a by (simp add: outcome_def del: play.simps all_accepted.simps)
qed

theorem top_row_win_witness:
  "outcome (play initial_state [0, 3, 1, 4, 2]) = WIN MarkX [0, 1, 2]
   \<and> scores (play initial_state [0, 3, 1, 4, 2]) = \<lparr>score_X = 1, score_O = 0, draws = 0\<rparr>"
proof -
  have "resetScores initial_state = initial_state"
    by (simp add: resetScores_def newGame_def initial_state_def)
  with top_row_win [of initial_state] show ?thesis by (simp del: play.simps all_accepted.simps)
qed

subsection \<open>Accepted moves\<close>

text \<open>
  C1, as the code has it. In every state reached from the initial state, a move that is
  accepted (round in progress, index from 0 to 8, cell empty) writes the mark of the
  current turn into the cell and leaves the other eight cells alone. If a triple of the
  table then matches, the first one in scan order is reported, the winner is the mover,
  and the mover's score grows by one; else, if all nine cells are filled, the round is
  a draw and the draw counter grows by one; else the round stays in progress and the
  scores are unchanged. The turn flips on every accepted move, the concluding ones
  included.
\<close>

theorem accepted_move_effect:
  assumes "s = run initial_state evs" and "accepted s idx" and "s' = handleSquareClick idx s"
  shows "array_get (board s') idx = Some (Filled (turn s))
     \<and> (\<forall>k\<in>{0..8}. k \<noteq> idx \<longrightarrow> array_get (board s') k = array_get (board s) k)
     \<and> turn s' \<noteq> turn s
     \<and> (case find (triple_matches (board s')) lines of
           Some (a, b, c) \<Rightarrow>
             outcome s' = WIN (turn s) [a, b, c]
             \<and> scores s' =
                 (if turn s = MarkX then (scores s)\<lparr>score_X := score_X (scores s) + 1\<rparr>
                  else (scores s)\<lparr>score_O := score_O (scores s) + 1\<rparr>)
         | None \<Rightarrow>
             if cells_filled (board s')
             then outcome s' = DRAW
                  \<and> scores s' = (scores s)\<lparr>draws := draws (scores s) + 1\<rparr>
             else outcome s' = IN_PROGRESS \<and> scores s' = scores s)"
proof -
  from assms(1) have ok: "state_ok s" by (simp add: state_ok_run state_ok_initial)
  note acc = accepted_guard [OF assms(2), THEN conjunct1]
             accepted_guard [OF assms(2), THEN conjunct2]
  from ok have l: "9 \<le> int (len (board s))" by (simp add: state_ok_def board_ok_def)
  have nb: "board s' = array_set (array_slice (board s)) idx (Filled (turn s))"
    unfolding assms(3) by (rule click_accepted_board [OF acc])
  have 1: "array_get (board s') idx = Some (Filled (turn s))"
    by (simp add: nb get_set_slice)
  have 2: "\<forall>k\<in>{0..8}. k \<noteq> idx \<longrightarrow> array_get (board s') k = array_get (board s) k"
    using l by (simp add: nb get_set_slice)
  have 3: "turn s' \<noteq> turn s"
    unfolding assms(3) by (rule turn_flips [OF click_accepted_xIsNext [OF acc]])
  from 1 2 3 accepted_move_conclusion [OF ok acc] show ?thesis
    unfolding assms(3) by blast
qed

theorem accepted_move_effect_witness:
  "accepted (run initial_state [Click 0, Click 3, Click 1, Click 4]) 2
   \<and> array_get (board (handleSquareClick 2 (run initial_state [Click 0, Click 3, Click 1, Click 4]))) 2
       = Some (Filled MarkX)
   \<and> outcome (handleSquareClick 2 (run initial_state [Click 0, Click 3, Click 1, Click 4]))
       = WIN MarkX [0, 1, 2]
   \<and> scores (handleSquareClick 2 (run initial_state [Click 0, Click 3, Click 1, Click 4]))
       = \<lparr>score_X = 1, score_O = 0, draws = 0\<rparr>"
proof -
  let ?s = "run initial_state [Click 0, Click 3, Click 1, Click 4]"
  have a: "accepted ?s 2" by code_simp
  have t: "turn ?s = MarkX" by code_simp
  have sc: "scores ?s = \<lparr>score_X = 0, score_O = 0, draws = 0\<rparr>" by code_simp
  have f: "find (triple_matches (board (handleSquareClick 2 ?s))) lines = Some (0, 1, 2)"
    by code_simp
  from accepted_move_effect [OF refl a refl] a t sc f show ?thesis by simp
qed

text \<open>
  C1 as stated has the turn flip only when the move does not conclude the round. The
  fifth click of 0, 3, 1, 4, 2 is accepted and wins the round for X; the turn was X
  before it and is O after it.
\<close>

theorem winning_move_flips_turn:
  "accepted (play initial_state [0, 3, 1, 4]) 2
   \<and> turn (play initial_state [0, 3, 1, 4]) = MarkX
   \<and> outcome (handleSquareClick 2 (play initial_state [0, 3, 1, 4])) = WIN MarkX [0, 1, 2]
   \<and> turn (handleSquareClick 2 (play initial_state [0, 3, 1, 4])) = MarkO"
  by code_simp

subsection \<open>Indices outside the board\<close>

text \<open>
  C3, as the code has it. A click with an index below 0 or above 8 signals nothing: the
  call completes with the next state. In a state reached from the initial state, when
  the round is over or the property under that key already holds a mark, the state is
  unchanged; otherwise the click goes through like any other: the mark of the current
  turn is stored under that key (the array grows when the key is an array index at or
  beyond its length), the nine cells and the scores are unchanged, the round stays in
  progress, and the turn flips.
\<close>

theorem out_of_range_click_proceeds:
  assumes "idx < 0 \<or> 8 < idx" and "s = run initial_state evs" and "s' = handleSquareClick idx s"
  shows "applyMove idx s = Inr s'
       \<and> (if gameOver s \<or> Boolean (array_get (board s) idx) then s' = s
          else array_get (board s') idx = Some (Filled (turn s))
               \<and> (\<forall>k\<in>{0..8}. array_get (board s') k = array_get (board s) k)
               \<and> len (board s') =
                   (if is_array_index idx then max (len (board s)) (nat idx + 1)
                    else len (board s))
               \<and> turn s' \<noteq> turn s
               \<and> outcome s' = IN_PROGRESS
               \<and> scores s' = scores s)"
proof (cases rule: click_cases [of s idx])
  case rejected
  then show ?thesis by (simp add: applyMove_def assms(3))
next
  case accepted
  from assms(2) have ok: "state_ok s" by (simp add: state_ok_run state_ok_initial)
  then have bok: "board_ok (board s)" by (simp add: state_ok_def)
  then have l: "9 \<le> int (len (board s))" by (simp add: board_ok_def)
  let ?nb = "array_set (array_slice (board s)) idx (Filled (turn s))"
  have nb: "board s' = ?nb"
    unfolding assms(3) by (rule click_accepted_board [OF accepted])
  have 1: "array_get (board s') idx = Some (Filled (turn s))"
    by (simp add: nb get_set_slice)
  have 2: "\<forall>k\<in>{0..8}. array_get (board s') k = array_get (board s) k"
    using l assms(1) by (auto simp: nb get_set_slice)
  have 3: "len (board s') =
      (if is_array_index idx then max (len (board s)) (nat idx + 1) else len (board s))"
    by (simp add: nb len_set_slice)
  have 4: "turn s' \<noteq> turn s"
    unfolding assms(3) by (rule turn_flips [OF click_accepted_xIsNext [OF accepted]])
  have nomatch: "find (triple_matches (board s')) lines = None"
  proof -
    have "\<not> triple_matches ?nb t" if t: "t \<in> set lines" for t
    proof
      assume m: "triple_matches ?nb t"
      obtain a b c where e: "t = (a, b, c)" by (cases t)
      from t e have tl: "(a, b, c) \<in> set lines" by simp
      from m e have "triple_matches ?nb (a, b, c)" by simp
      from new_match_through_idx [OF bok accepted(2) in_progress_no_match [OF ok accepted(1)] tl this]
      have "idx \<in> {a, b, c}" by simp
      with lines_range [OF tl] assms(1) show False by auto
    qed
    then show ?thesis by (simp add: nb find_None_iff)
  qed
  have notfull: "\<not> cells_filled (board s')"
  proof -
    from 2 have "\<And>k. 0 \<le> k \<and> k < 9 \<Longrightarrow> array_get (board s') k = array_get (board s) k"
      by simp
    then have "cells_filled (board s') = cells_filled (board s)"
      by (simp add: cells_filled_iff)
    with in_progress_not_filled [OF ok accepted(1)] show ?thesis by simp
  qed
  from accepted_move_conclusion [OF ok accepted] nomatch notfull
  have 5: "outcome s' = IN_PROGRESS \<and> scores s' = scores s"
    by (simp add: assms(3))
  from accepted 1 2 3 4 5 show ?thesis by (simp add: applyMove_def assms(3))
qed

theorem out_of_range_click_proceeds_witness:
  "((9::int) < 0 \<or> 8 < (9::int))
   \<and> applyMove 9 (run initial_state [Click 0]) = Inr (handleSquareClick 9 (run initial_state [Click 0]))
   \<and> array_get (board (handleSquareClick 9 (run initial_state [Click 0]))) 9 = Some (Filled MarkO)
   \<and> len (board (handleSquareClick 9 (run initial_state [Click 0]))) = 10
   \<and> outcome (handleSquareClick 9 (run initial_state [Click 0])) = IN_PROGRESS"
proof -
  let ?s = "run initial_state [Click 0]"
  have r: "(9::int) < 0 \<or> 8 < (9::int)" by simp
  have g: "\<not> (gameOver ?s \<or> Boolean (array_get (board ?s) 9))" by code_simp
  have t: "turn ?s = MarkO" by code_simp
  have l: "len (board ?s) = 9" by code_simp
  have i: "is_array_index 9" by (simp add: is_array_index_def)
  from out_of_range_click_proceeds [OF r refl refl, of "[Click 0]"] g t l i
  show ?thesis by simp
qed

text \<open>
  C3 as stated has such a click signal an invalid argument. The click on index 9 in the
  initial state signals nothing and is not ignored: the board grows to ten elements
  with X at index 9, and the turn passes to O. The click on index -1 stores X under
  the key -1 and passes the turn as well.
\<close>

theorem out_of_range_click_not_signalled:
  "applyMove 9 initial_state \<noteq> Inl InvalidArgument
   \<and> len (board (handleSquareClick 9 initial_state)) = 10
   \<and> array_get (board (handleSquareClick 9 initial_state)) 9 = Some (Filled MarkX)
   \<and> turn initial_state = MarkX
   \<and> turn (handleSquareClick 9 initial_state) = MarkO
   \<and> applyMove (- 1) initial_state \<noteq> Inl InvalidArgument
   \<and> array_get (board (handleSquareClick (- 1) initial_state)) (- 1) = Some (Filled MarkX)
   \<and> turn (handleSquareClick (- 1) initial_state) = MarkO"
proof -
  have "applyMove 9 initial_state \<noteq> Inl InvalidArgument"
    and "applyMove (- 1) initial_state \<noteq> Inl InvalidArgument"
    by (simp_all add: applyMove_def)
  moreover have "len (board (handleSquareClick 9 initial_state)) = 10" by code_simp
  moreover have "array_get (board (handleSquareClick 9 initial_state)) 9 = Some (Filled MarkX)"
    by code_simp
  moreover have "turn initial_state = MarkX" by code_simp
  moreover have "turn (handleSquareClick 9 initial_state) = MarkO" by code_simp
  moreover have "array_get (board (handleSquareClick (- 1) initial_state)) (- 1) = Some (Filled MarkX)"
    by code_simp
  moreover have "turn (handleSquareClick (- 1) initial_state) = MarkO" by code_simp
  ultimately show ?thesis by blast
qed

subsection \<open>Matching triples after a move\<close>

text \<open>
  C4, as the code has it. In a state reached from the initial state by accepted moves,
  after one more accepted move every matching triple of the table passes through the
  cell just marked and holds the mover's mark, and at most two triples match. A win is
  detected exactly when some triple matches, and scanning the table in any other order
  gives the same winner: the scan order decides only which triple is reported.
\<close>

theorem new_matches_share_cell_and_mark:
  assumes "all_accepted initial_state (idxs @ [i])"
    and "s = play initial_state idxs" and "s' = handleSquareClick i s"
  shows "(\<forall>(a, b, c)\<in>set lines. triple_matches (board s') (a, b, c) \<longrightarrow>
            i \<in> {a, b, c} \<and> array_get (board s') a = Some (Filled (turn s)))
       \<and> length (filter (triple_matches (board s')) lines) \<le> 2
       \<and> (winner (winnerInfo s') \<noteq> None \<longleftrightarrow> (\<exists>t\<in>set lines. triple_matches (board s') t))
       \<and> (\<forall>ls. set ls = set lines \<longrightarrow>
            winner (scan_lines (board s') ls) = winner (winnerInfo s'))"
proof -
  from assms(1,2) have acc: "accepted s i" by (simp add: all_accepted_append)
  note g = accepted_guard [OF acc, THEN conjunct1] accepted_guard [OF acc, THEN conjunct2]
  from assms(2) have ok: "state_ok s" by (simp add: state_ok_play state_ok_initial)
  then have bok: "board_ok (board s)" by (simp add: state_ok_def)
  have nb: "board s' = array_set (array_slice (board s)) i (Filled (turn s))"
    unfolding assms(3) by (rule click_accepted_board [OF g])
  have wi: "winnerInfo s' = scan_lines (board s') lines"
    unfolding assms(3) using click_accepted_winnerInfo [OF g] by (simp add: calculateWinner_def)
  have 1: "\<forall>(a, b, c)\<in>set lines. triple_matches (board s') (a, b, c) \<longrightarrow>
            i \<in> {a, b, c} \<and> array_get (board s') a = Some (Filled (turn s))"
    unfolding nb
    using new_match_through_idx [OF bok g(2) in_progress_no_match [OF ok g(1)]]
    by blast
  have 2: "winner (winnerInfo s') \<noteq> None \<longleftrightarrow> (\<exists>t\<in>set lines. triple_matches (board s') t)"
    unfolding wi by (simp add: scan_lines_winner_None)
  have 3: "\<forall>ls. set ls = set lines \<longrightarrow>
            winner (scan_lines (board s') ls) = winner (winnerInfo s')"
  proof (intro allI impI)
    fix ls assume e: "set ls = set lines"
    show "winner (scan_lines (board s') ls) = winner (winnerInfo s')"
    proof (cases "\<exists>t\<in>set lines. triple_matches (board s') t")
      case True
      from 1 have m: "\<forall>(a, b, c)\<in>set lines. triple_matches (board s') (a, b, c) \<longrightarrow>
            array_get (board s') a = Some (Filled (turn s))" by blast
      from scan_lines_same_winner [OF m True]
      have "winner (scan_lines (board s') lines) = Some (turn s)" .
      moreover from m True e
      have "winner (scan_lines (board s') ls) = Some (turn s)"
        by (intro scan_lines_same_winner) simp_all
      ultimately show ?thesis by (simp add: wi)
    next
      case False
      with e have "winner (scan_lines (board s') ls) = None"
        and "winner (scan_lines (board s') lines) = None"
        by (simp_all add: scan_lines_winner_None)
      then show ?thesis by (simp add: wi)
    qed
  qed
  have 4: "length (filter (triple_matches (board s')) lines) \<le> 2"
  proof -
    from balanced_play [OF state_ok_initial balanced_initial assms(1)]
    have "balanced s'" by (simp add: play_append assms(2,3))
    then have five: "count_mark (turn s) (board s') \<le> 5" by (rule balanced_at_most_five)
    from 1 have "\<forall>(a, b, c)\<in>set lines. triple_matches (board s') (a, b, c) \<longrightarrow>
        array_get (board s') a = Some (Filled (turn s))" by blast
    from matching_lines_at_most_two [OF five this] show ?thesis .
  qed
  from 1 2 3 4 show ?thesis by blast
qed

theorem new_matches_share_cell_and_mark_witness:
  "all_accepted initial_state ([0, 3, 1, 4] @ [2])
   \<and> length (filter (triple_matches (board (handleSquareClick 2 (play initial_state [0, 3, 1, 4])))) lines) \<le> 2
   \<and> winner (winnerInfo (handleSquareClick 2 (play initial_state [0, 3, 1, 4]))) \<noteq> None
   \<and> winner (scan_lines (board (handleSquareClick 2 (play initial_state [0, 3, 1, 4]))) (rev lines))
       = winner (winnerInfo (handleSquareClick 2 (play initial_state [0, 3, 1, 4])))"
proof -
  let ?b = "board (handleSquareClick 2 (play initial_state [0, 3, 1, 4]))"
  have a: "all_accepted initial_state ([0, 3, 1, 4] @ [2])" by code_simp
  have "triple_matches ?b (0, 1, 2)" by code_simp
  moreover have "(0, 1, 2) \<in> set lines" by (simp add: lines_def)
  ultimately have m: "\<exists>t\<in>set lines. triple_matches ?b t" by blast
  have r: "set (rev lines) = set lines" by simp
  from new_matches_share_cell_and_mark [OF a refl refl] a m r show ?thesis by blast
qed

text \<open>
  C4 as stated allows at most one matching triple after a move. After the accepted
  moves 1, 4, 2, 5, 3, 7, 6, 8 the accepted move 0 gives X the top row and the left
  column at once: two triples match.
\<close>

theorem one_move_completes_two_lines:
  "all_accepted initial_state ([1, 4, 2, 5, 3, 7, 6, 8] @ [0])
   \<and> filter (triple_matches (board (handleSquareClick 0 (play initial_state [1, 4, 2, 5, 3, 7, 6, 8]))))
        lines = [(0, 1, 2), (0, 3, 6)]"
  by code_simp

subsection \<open>How many cells each mark holds\<close>

text \<open>
  C5. After any sequence of accepted moves from a fresh round, X holds as many cells as
  O or exactly one more: as many when X is next, one more when O is next.
\<close>

theorem mark_counts_balanced:
  assumes "all_accepted (newGame s0) idxs" and "s = play (newGame s0) idxs"
  shows "(count_mark MarkX (board s) = count_mark MarkO (board s)
          \<or> count_mark MarkX (board s) = count_mark MarkO (board s) + 1)
       \<and> count_mark MarkX (board s) = count_mark MarkO (board s) + (if xIsNext s then 0 else 1)"
proof -
  from balanced_play [OF state_ok_newGame balanced_newGame assms(1)] assms(2)
  have "balanced s" by simp
  then show ?thesis by (simp add: balanced_def)
qed

theorem mark_counts_balanced_witness:
  "all_accepted (newGame initial_state) [0, 3, 1, 4, 2]
   \<and> count_mark MarkX (board (play (newGame initial_state) [0, 3, 1, 4, 2])) = 3
   \<and> count_mark MarkO (board (play (newGame initial_state) [0, 3, 1, 4, 2])) = 2"
proof -
  let ?s = "play (newGame initial_state) [0, 3, 1, 4, 2]"
  have a: "all_accepted (newGame initial_state) [0, 3, 1, 4, 2]" by code_simp
  have x: "count_mark MarkX (board ?s) = 3" by code_simp
  have n: "\<not> xIsNext ?s" by code_simp
  from mark_counts_balanced [OF a refl]
  have "count_mark MarkX (board ?s) = count_mark MarkO (board ?s) + (if xIsNext ?s then 0 else 1)"
    by blast
  with x n have "count_mark MarkO (board ?s) = 2" by (simp del: play.simps)
  with a x show ?thesis by blast
qed

end
